theory Spec2Isabelle
  imports Complex_Main "HOL-Library.Word"
begin

section \<open>The line follower firmware (src/line\_follower.c)\<close>

text \<open>
  The firmware is C for an 8-bit AVR (\<^verbatim>\<open>avr/io.h\<close>, 16 MHz): \<^verbatim>\<open>int\<close> and
  \<^verbatim>\<open>unsigned int\<close> are 16 bits wide, \<^verbatim>\<open>long\<close> and \<^verbatim>\<open>unsigned long\<close> are
  32 bits wide, \<^verbatim>\<open>uint8_t\<close> is 8 bits wide and \<^verbatim>\<open>float\<close> is the 32-bit binary
  format.  Integers are modelled as machine words, so that every conversion and every
  wrap-around of the source is a visible operation of the model; signed readings of a
  word are taken with \<open>sint\<close>, unsigned ones with \<open>uint\<close>.
\<close>

subsection \<open>Configuration macros\<close>

text \<open>
  The macros are integer literals; each abbreviation stands for its literal at the type
  of the place where the source uses it.
\<close>

abbreviation LEFT_MAX_SPEED :: "'a::numeral" where "LEFT_MAX_SPEED \<equiv> 220"
abbreviation RIGHT_MAX_SPEED :: "'a::numeral" where "RIGHT_MAX_SPEED \<equiv> 210"
abbreviation SENSOR_NUM :: "'a::numeral" where "SENSOR_NUM \<equiv> 6"
abbreviation NOISE_THRESHOLD :: "'a::numeral" where "NOISE_THRESHOLD \<equiv> 50"
abbreviation ON_TRACK_VALUE :: "'a::numeral" where "ON_TRACK_VALUE \<equiv> 200"
abbreviation BASE_SPEED :: "'a::numeral" where "BASE_SPEED \<equiv> 175"
abbreviation MAX_SPEED :: "'a::numeral" where "MAX_SPEED \<equiv> 240"
abbreviation HEUR_OFFSET :: "'a::numeral" where "HEUR_OFFSET \<equiv> 1000"
abbreviation MIDDLE_ERROR :: "'a::numeral" where "MIDDLE_ERROR \<equiv> 2500"
abbreviation INTEGRAL_RESET_ITER :: "'a::numeral" where "INTEGRAL_RESET_ITER \<equiv> 125"

subsection \<open>Single precision arithmetic\<close>

text \<open>
  A finite \<^verbatim>\<open>float\<close> is modelled by the rational number it denotes.  Every
  operation computes the exact result and rounds it to the nearest number of the binary32
  format (24 significant bits, exponents from -126, ties to the even significand).  The
  operands of this program are 16-bit and 32-bit integers and gains below 1, so no result
  comes near the largest binary32 number.
\<close>

type_synonym float32 = rat

definition round_half_even :: "rat \<Rightarrow> int" where
  "round_half_even q =
     (let f = \<lfloor>q\<rfloor>; r = q - of_int f
      in if r < 1 / 2 then f
         else if 1 / 2 < r then f + 1
         else if even f then f else f + 1)"

definition binary32_exponent :: "rat \<Rightarrow> int" where
  "binary32_exponent x =
     (case find (\<lambda>e. \<bar>x\<bar> < 2 powi (e + 1)) [-126..127] of
        Some e \<Rightarrow> e
      | None \<Rightarrow> 128)"

definition round_binary32 :: "rat \<Rightarrow> float32" where
  "round_binary32 x =
     (let ulp = 2 powi (binary32_exponent x - 23)
      in of_int (round_half_even (x / ulp)) * ulp)"

definition fmul :: "float32 \<Rightarrow> float32 \<Rightarrow> float32" where
  "fmul a b = round_binary32 (a * b)"

definition fadd :: "float32 \<Rightarrow> float32 \<Rightarrow> float32" where
  "fadd a b = round_binary32 (a + b)"

text \<open>Conversion of a signed integer of any width to \<^verbatim>\<open>float\<close>.\<close>

definition float_of_word :: "'a::len word \<Rightarrow> float32" where
  "float_of_word w = round_binary32 (of_int (sint w))"

text \<open>
  Conversion of a \<^verbatim>\<open>float\<close> to \<^verbatim>\<open>int\<close> discards the fraction (towards zero);
  the integer is then stored in 16 bits.
\<close>

definition truncate_toward_zero :: "rat \<Rightarrow> int" where
  "truncate_toward_zero x = (if 0 \<le> x then \<lfloor>x\<rfloor> else \<lceil>x\<rceil>)"

definition int_of_float :: "float32 \<Rightarrow> 16 word" where
  "int_of_float x = word_of_int (truncate_toward_zero x)"

text \<open>The gains: \<^verbatim>\<open>float KP = 0.0515; float KD = 0.00035; float KI = 0.00000267;\<close>\<close>

definition KP :: float32 where "KP = round_binary32 (515 / 10000)"
definition KD :: float32 where "KD = round_binary32 (35 / 100000)"
definition KI :: float32 where "KI = round_binary32 (267 / 100000000)"

subsection \<open>State\<close>

text \<open>
  The function-local \<^verbatim>\<open>static\<close> variables of \<^verbatim>\<open>read_qrt_line\<close> and
  \<^verbatim>\<open>handle_move\<close> and the four output compare registers written by the motor
  setters.
\<close>

record robot =
  last_value :: "32 word"
  last_error :: "16 word"
  integral :: "32 word"
  reset_integral :: "16 word"
  OCR0A :: "8 word"
  OCR0B :: "8 word"
  OCR2A :: "8 word"
  OCR2B :: "8 word"

text \<open>The initial values: the statics start at 0, \<^verbatim>\<open>engine_init\<close> clears the registers.\<close>

definition initial_robot :: robot where
  "initial_robot =
     \<lparr>last_value = 0, last_error = 0, integral = 0, reset_integral = 0,
      OCR0A = 0, OCR0B = 0, OCR2A = 0, OCR2B = 0\<rparr>"

text \<open>The only operation of the source that can fault is the division of the estimator.\<close>

datatype fault = DivisionByZero

subsection \<open>clamp\<close>

text \<open>
  \<^verbatim>\<open>uint8_t clamp(int value, uint8_t min, uint8_t max)\<close>: the bounds are promoted to
  \<^verbatim>\<open>int\<close> for the comparisons, the value returned is narrowed to 8 bits.
\<close>

definition clamp :: "16 word \<Rightarrow> 8 word \<Rightarrow> 8 word \<Rightarrow> 8 word" where
  "clamp val mn mx =
     (if sint val < uint mn then mn
      else if uint mx < sint val then mx
      else ucast val)"

subsection \<open>Sensors\<close>

text \<open>
  \<^verbatim>\<open>ADC_get(channel)\<close> starts a conversion, waits for the hardware and returns the
  data register as an \<^verbatim>\<open>int\<close>.  One sweep of the converter is a function from the
  channel to the value read; \<^verbatim>\<open>read_line_input\<close> stores channels 0 to
  \<open>SENSOR_NUM - 1\<close> in the array.
\<close>

type_synonym sweep = "nat \<Rightarrow> 16 word"

definition read_line_input :: "sweep \<Rightarrow> 16 word list" where
  "read_line_input adc = map adc [0..<SENSOR_NUM]"

text \<open>
  The converter has 10 bits (spec: "each yielding an intensity in a fixed resolution
  (reference: 10-bit, 0--1023)"): a sweep the hardware can deliver has every reading
  between 0 and 1023.
\<close>

definition adc_reading :: "16 word \<Rightarrow> bool" where
  "adc_reading v = (0 \<le> sint v \<and> sint v \<le> 1023)"

definition adc_sweep :: "sweep \<Rightarrow> bool" where
  "adc_sweep adc = list_all adc_reading (read_line_input adc)"

text \<open>The sweep that delivers the readings of a list, channel by channel.\<close>

definition sweep_of :: "16 word list \<Rightarrow> sweep" where
  "sweep_of vs = (\<lambda>i. if i < length vs then vs ! i else 0)"

subsection \<open>Motor setters\<close>

definition left_motor_set :: "8 word \<Rightarrow> robot \<Rightarrow> robot" where
  "left_motor_set strength st = st\<lparr>OCR0A := strength, OCR0B := 0\<rparr>"

definition right_motor_set :: "8 word \<Rightarrow> robot \<Rightarrow> robot" where
  "right_motor_set strength st = st\<lparr>OCR2A := 0, OCR2B := strength\<rparr>"

subsection \<open>read\_qrt\_line\<close>

text \<open>The local variables of the loop over the sensors.\<close>

record scan =
  average :: "32 word"
  sum_acc :: "16 word"
  heur_offset :: "16 word"
  on_track :: bool

definition scan_start :: scan where
  "scan_start = \<lparr>average = 0, sum_acc = 0, heur_offset = 0, on_track = False\<rparr>"

text \<open>
  One iteration for the reading \<open>val\<close>.  \<^verbatim>\<open>(long)(value) * heur_offset\<close> is a
  product of 32-bit values (the reading sign-extended, the offset zero-extended) that is
  added to the \<^verbatim>\<open>unsigned long average\<close>; \<^verbatim>\<open>sum += value\<close> is an addition of
  16-bit unsigned values.
\<close>

definition scan_step :: "16 word \<Rightarrow> scan \<Rightarrow> scan" where
  "scan_step val s =
     (let s1 = (if ON_TRACK_VALUE < sint val then s\<lparr>on_track := True\<rparr> else s);
          s2 = (if NOISE_THRESHOLD < sint val
                then s1\<lparr>average := average s1 + scast val * ucast (heur_offset s1),
                        sum_acc := sum_acc s1 + val\<rparr>
                else s1)
      in s2\<lparr>heur_offset := heur_offset s2 + HEUR_OFFSET\<rparr>)"

fun scan_loop :: "16 word list \<Rightarrow> scan \<Rightarrow> scan" where
  "scan_loop [] s = s"
| "scan_loop (val # rest) s = scan_loop rest (scan_step val s)"

text \<open>
  The function returns the estimate as an \<^verbatim>\<open>int\<close> together with the new state.
  Without a reading above \<open>ON_TRACK_VALUE\<close> it returns a boundary and leaves
  \<^verbatim>\<open>last_value\<close> alone; otherwise \<^verbatim>\<open>last_value = average / sum\<close> is an unsigned
  32-bit division, which faults when \<^verbatim>\<open>sum\<close> is 0.
\<close>

definition read_qrt_line :: "sweep \<Rightarrow> robot \<Rightarrow> fault + (16 word \<times> robot)" where
  "read_qrt_line adc st =
     (let s = scan_loop (read_line_input adc) scan_start
      in if \<not> on_track s
         then (if sint (last_value st) < (SENSOR_NUM - 1) * drop_bit 1 HEUR_OFFSET
               then Inr (0, st)
               else Inr (word_of_int ((SENSOR_NUM - 1) * HEUR_OFFSET), st))
         else if sum_acc s = 0 then Inl DivisionByZero
         else (let st' = st\<lparr>last_value := average s div ucast (sum_acc s)\<rparr>
               in Inr (ucast (last_value st'), st')))"

subsection \<open>handle\_move\<close>

text \<open>
  \<^verbatim>\<open>unsigned int position = read_qrt_line(values); int error = position - MIDDLE_ERROR;\<close>
  The subtraction is done on 16-bit unsigned values and its result read as an \<^verbatim>\<open>int\<close>.
\<close>

definition position_error :: "16 word \<Rightarrow> 16 word" where
  "position_error position = position - MIDDLE_ERROR"

text \<open>
  \<^verbatim>\<open>int pid = KP * error + KI * integral + KD * (error - last_error);\<close>
\<close>

definition pid_value :: "16 word \<Rightarrow> 32 word \<Rightarrow> 16 word \<Rightarrow> 16 word" where
  "pid_value err integ last_err =
     int_of_float
       (fadd (fadd (fmul KP (float_of_word err)) (fmul KI (float_of_word integ)))
             (fmul KD (float_of_word (err - last_err))))"

text \<open>
  The two speeds computed from \<^verbatim>\<open>pid\<close>: \<^verbatim>\<open>left_speed = BASE_SPEED + pid\<close>,
  \<^verbatim>\<open>right_speed = BASE_SPEED - pid\<close>, both clamped with \<^verbatim>\<open>clamp(_, 0, MAX_SPEED)\<close>
  and stored back into the \<^verbatim>\<open>int\<close> variables.
\<close>

definition motor_speeds :: "16 word \<Rightarrow> 16 word \<times> 16 word" where
  "motor_speeds pid =
     (let left_speed = BASE_SPEED + pid;
          right_speed = BASE_SPEED - pid
      in (ucast (clamp left_speed 0 MAX_SPEED), ucast (clamp right_speed 0 MAX_SPEED)))"

definition handle_move :: "sweep \<Rightarrow> robot \<Rightarrow> fault + robot" where
  "handle_move adc st =
     (let st1 = (if reset_integral st = INTEGRAL_RESET_ITER
                 then st\<lparr>reset_integral := 0, integral := 0\<rparr>
                 else st)
      in case read_qrt_line adc st1 of
           Inl f \<Rightarrow> Inl f
         | Inr (position, st2) \<Rightarrow>
             (let err = position_error position;
                  st3 = st2\<lparr>integral := integral st2 + scast err\<rparr>;
                  pid = pid_value err (integral st3) (last_error st3);
                  (left_speed, right_speed) = motor_speeds pid;
                  st4 = left_motor_set (ucast left_speed) st3;
                  st5 = right_motor_set (ucast right_speed) st4
              in Inr (st5\<lparr>reset_integral := reset_integral st5 + 1\<rparr>)))"

text \<open>Consecutive control cycles, one sweep each; a fault ends the run.\<close>

fun run_moves :: "sweep list \<Rightarrow> robot \<Rightarrow> fault + robot" where
  "run_moves [] st = Inr st"
| "run_moves (adc # rest) st =
     (case handle_move adc st of Inl f \<Rightarrow> Inl f | Inr st' \<Rightarrow> run_moves rest st')"

text \<open>Consecutive calls of the estimator alone.\<close>

fun run_estimator :: "sweep list \<Rightarrow> robot \<Rightarrow> fault + robot" where
  "run_estimator [] st = Inr st"
| "run_estimator (adc # rest) st =
     (case read_qrt_line adc st of Inl f \<Rightarrow> Inl f | Inr (_, st') \<Rightarrow> run_estimator rest st')"

subsection \<open>Notions used to state the properties\<close>

text \<open>
  The on-track condition of a sweep, as the loop decides it: some reading is strictly above
  \<open>ON_TRACK_VALUE\<close>.
\<close>

definition no_reading_on_track :: "sweep \<Rightarrow> bool" where
  "no_reading_on_track adc = list_all (\<lambda>v. \<not> ON_TRACK_VALUE < sint v) (read_line_input adc)"

definition some_reading_on_track :: "sweep \<Rightarrow> bool" where
  "some_reading_on_track adc = list_ex (\<lambda>v. ON_TRACK_VALUE < sint v) (read_line_input adc)"

text \<open>
  The estimate as the specification words it: the integer quotient of the sum of
  \<open>i * HEUR_OFFSET * value\<^sub>i\<close> by the sum of \<open>value\<^sub>i\<close>, both taken over the
  indices whose reading is strictly above \<open>NOISE_THRESHOLD\<close>.
\<close>

definition weighted_average :: "int list \<Rightarrow> int" where
  "weighted_average vs =
     (\<Sum>i\<leftarrow>[0..<length vs]. if NOISE_THRESHOLD < vs ! i then int i * HEUR_OFFSET * (vs ! i) else 0)
     div (\<Sum>i\<leftarrow>[0..<length vs]. if NOISE_THRESHOLD < vs ! i then vs ! i else 0)"

text \<open>
  The same two sums by recursion over the readings, the weight of the first reading being
  \<open>w\<close>; this is the shape in which the loop accumulates them.
\<close>

fun wsum :: "int \<Rightarrow> int list \<Rightarrow> int" where
  "wsum w [] = 0"
| "wsum w (v # vs) = (if NOISE_THRESHOLD < v then v * w else 0) + wsum (w + HEUR_OFFSET) vs"

fun vsum :: "int list \<Rightarrow> int" where
  "vsum [] = 0"
| "vsum (v # vs) = (if NOISE_THRESHOLD < v then v else 0) + vsum vs"

text \<open>The stored estimate lies in the range of position estimates.\<close>

definition estimate_ok :: "robot \<Rightarrow> bool" where
  "estimate_ok st = (0 \<le> sint (last_value st) \<and> sint (last_value st) \<le> (SENSOR_NUM - 1) * HEUR_OFFSET)"

text \<open>
  The windup guard at the start of \<^verbatim>\<open>handle_move\<close>: the state after the first
  \<^verbatim>\<open>if\<close> of the function.
\<close>

definition start_cycle :: "robot \<Rightarrow> robot" where
  "start_cycle st =
     (if reset_integral st = INTEGRAL_RESET_ITER
      then st\<lparr>reset_integral := 0, integral := 0\<rparr> else st)"

section \<open>Machine arithmetic\<close>

lemma mod_shift_int:
  fixes k m :: int
  assumes "0 \<le> k" "k < 2 * m"
  shows "(k + m) mod (2 * m) - m = (if k < m then k else k - 2 * m)"
proof (cases "k < m")
  case True
  then have "(k + m) mod (2 * m) = k + m"
    using assms by (intro mod_pos_pos_trivial) linarith+
  then show ?thesis using True by simp
next
  case False
  have "(k + m) mod (2 * m) = ((k - m) + 2 * m) mod (2 * m)"
    by (simp add: algebra_simps)
  also have "\<dots> = (k - m) mod (2 * m)"
    by (rule mod_add_self2)
  also have "\<dots> = k - m"
    using assms False by (intro mod_pos_pos_trivial) linarith+
  finally show ?thesis using False by simp
qed

lemma sint16_cases:
  fixes v :: "16 word"
  shows "sint v = (if uint v < 32768 then uint v else uint v - 65536)"
proof -
  have b: "0 \<le> uint v" "uint v < 2 * 32768"
    using uint_lt2p [of v] by simp_all
  have "sint v = take_bit 16 (uint v + 32768) - 32768"
    by (simp add: sint_uint signed_take_bit_eq_take_bit_shift)
  also have "\<dots> = (uint v + 32768) mod (2 * 32768) - 32768"
    by (simp add: take_bit_eq_mod)
  also have "\<dots> = (if uint v < 32768 then uint v else uint v - 2 * 32768)"
    using b by (rule mod_shift_int)
  finally show ?thesis by simp
qed

lemma sint_nonneg_uint:
  fixes v :: "16 word"
  shows "0 \<le> sint v \<Longrightarrow> sint v = uint v"
  using uint_lt2p [of v] by (simp add: sint16_cases split: if_splits)

lemma uint_scast_reading:
  fixes v :: "16 word"
  assumes "0 \<le> sint v"
  shows "uint (scast v :: 32 word) = sint v"
proof -
  have "sint v < 2 ^ 32"
    using sint_lt [of v] by simp
  then have "take_bit 32 (sint v) = sint v"
    using assms by (intro take_bit_int_eq_self)
  then show ?thesis
    by (simp only: scast_eq uint_word_of_int_eq len_of_numeral_defs) simp
qed

lemma uint_ucast_offset:
  fixes h :: "16 word"
  shows "uint (ucast h :: 32 word) = uint h"
  by (rule uint_up_ucast) (simp add: is_up)

lemma scan_step_on_track:
  "on_track (scan_step v s) = (on_track s \<or> ON_TRACK_VALUE < sint v)"
  by (simp add: scan_step_def Let_def)

lemma scan_loop_on_track:
  "on_track (scan_loop vs s) = (on_track s \<or> list_ex (\<lambda>v. ON_TRACK_VALUE < sint v) vs)"
  by (induction vs arbitrary: s) (auto simp: scan_step_on_track)

lemma scan_step_heur_offset:
  assumes "uint (heur_offset s) \<le> 5000"
  shows "uint (heur_offset (scan_step v s)) = uint (heur_offset s) + HEUR_OFFSET"
proof -
  have "uint (heur_offset s) + uint (HEUR_OFFSET :: 16 word) < 2 ^ LENGTH(16)"
    using assms by simp
  then have "uint (heur_offset s + HEUR_OFFSET) = uint (heur_offset s) + uint (HEUR_OFFSET :: 16 word)"
    by (simp only: uint_add_lem)
  then show ?thesis
    by (simp add: scan_step_def Let_def)
qed

lemma scan_step_sum_acc:
  assumes "adc_reading v" "uint (sum_acc s) + 1023 \<le> 65535"
  shows "uint (sum_acc (scan_step v s)) =
         uint (sum_acc s) + (if NOISE_THRESHOLD < sint v then sint v else 0)"
proof -
  have v: "sint v = uint v"
    using assms(1) by (simp add: adc_reading_def sint_nonneg_uint)
  have v': "uint v \<le> 1023"
    using assms(1) v by (simp add: adc_reading_def)
  have "uint (sum_acc s) + uint v < 2 ^ LENGTH(16)"
    using v' assms(2) by simp
  then have "uint (sum_acc s + v) = uint (sum_acc s) + uint v"
    by (simp only: uint_add_lem)
  then show ?thesis
    using v by (simp add: scan_step_def Let_def)
qed

lemma scan_step_average:
  assumes "adc_reading v" "uint (heur_offset s) \<le> 5000"
    and "uint (average s) + 5115000 \<le> 4294967295"
  shows "uint (average (scan_step v s)) =
         uint (average s) + (if NOISE_THRESHOLD < sint v then sint v * uint (heur_offset s) else 0)"
proof -
  let ?p = "scast v * ucast (heur_offset s) :: 32 word"
  have v: "0 \<le> sint v" "sint v \<le> 1023"
    using assms(1) by (simp_all add: adc_reading_def)
  have "sint v * uint (heur_offset s) \<le> 1023 * 5000"
    using v assms(2) by (intro mult_mono) simp_all
  then have le: "sint v * uint (heur_offset s) \<le> 5115000"
    by simp
  have "uint (scast v :: 32 word) * uint (ucast (heur_offset s) :: 32 word) < 2 ^ LENGTH(32)"
    using le v by (simp add: uint_scast_reading uint_ucast_offset)
  then have "uint ?p = uint (scast v :: 32 word) * uint (ucast (heur_offset s) :: 32 word)"
    by (simp only: uint_mult_lem)
  then have p: "uint ?p = sint v * uint (heur_offset s)"
    using v by (simp add: uint_scast_reading uint_ucast_offset)
  have "uint (average s) + uint ?p < 2 ^ LENGTH(32)"
    using le assms(3) by (simp add: p)
  then have "uint (average s + ?p) = uint (average s) + uint ?p"
    by (simp only: uint_add_lem)
  then show ?thesis
    by (simp add: scan_step_def Let_def p)
qed

section \<open>The loop over the sensors\<close>

lemma scan_loop_exact:
  assumes "list_all adc_reading vs"
    and "uint (heur_offset s) + 1000 * int (length vs) \<le> 6000"
    and "uint (average s) + 5115000 * int (length vs) \<le> 4294967295"
    and "uint (sum_acc s) + 1023 * int (length vs) \<le> 65535"
  shows "uint (average (scan_loop vs s)) = uint (average s) + wsum (uint (heur_offset s)) (map sint vs)
       \<and> uint (sum_acc (scan_loop vs s)) = uint (sum_acc s) + vsum (map sint vs)"
  using assms
proof (induction vs arbitrary: s)
  case Nil
  then show ?case by simp
next
  case (Cons v vs)
  have r: "adc_reading v" and rs: "list_all adc_reading vs"
    using Cons.prems(1) by simp_all
  have h: "uint (heur_offset s) \<le> 5000"
    using Cons.prems(2) by simp
  have a: "uint (average s) + 5115000 \<le> 4294967295"
    using Cons.prems(3) by simp
  have u: "uint (sum_acc s) + 1023 \<le> 65535"
    using Cons.prems(4) by simp
  note st = scan_step_heur_offset [OF h, of v] scan_step_average [OF r h a] scan_step_sum_acc [OF r u]
  have v: "0 \<le> sint v" "sint v \<le> 1023"
    using r by (simp_all add: adc_reading_def)
  have "sint v * uint (heur_offset s) \<le> 1023 * 5000"
    using v h by (intro mult_mono) simp_all
  then have le: "sint v * uint (heur_offset s) \<le> 5115000"
    by simp
  have "uint (average (scan_loop vs (scan_step v s))) =
          uint (average (scan_step v s)) + wsum (uint (heur_offset (scan_step v s))) (map sint vs)
      \<and> uint (sum_acc (scan_loop vs (scan_step v s))) =
          uint (sum_acc (scan_step v s)) + vsum (map sint vs)"
  proof (rule Cons.IH [OF rs])
    show "uint (heur_offset (scan_step v s)) + 1000 * int (length vs) \<le> 6000"
      using Cons.prems(2) by (simp add: st)
    show "uint (average (scan_step v s)) + 5115000 * int (length vs) \<le> 4294967295"
      using Cons.prems(3) le by (simp add: st)
    show "uint (sum_acc (scan_step v s)) + 1023 * int (length vs) \<le> 65535"
      using Cons.prems(4) v by (simp add: st)
  qed
  then show ?case
    by (simp add: st mult.commute)
qed

lemma wsum_le:
  assumes "\<forall>v\<in>set vs. 0 \<le> v" "0 \<le> w" "w + 1000 * int (length vs) \<le> m + 1000"
  shows "wsum w vs \<le> m * vsum vs"
  using assms
proof (induction vs arbitrary: w)
  case Nil
  then show ?case by simp
next
  case (Cons v vs)
  have wm: "w \<le> m" using Cons.prems(3) by simp
  have v: "0 \<le> v" using Cons.prems(1) by simp
  have "wsum (w + 1000) vs \<le> m * vsum vs"
    using Cons.prems by (intro Cons.IH) simp_all
  moreover have "v * w \<le> v * m"
    using wm v by (rule mult_left_mono)
  ultimately show ?case
    by (simp add: algebra_simps)
qed

lemma vsum_nonneg: "\<forall>v\<in>set vs. 0 \<le> v \<Longrightarrow> 0 \<le> vsum vs"
  by (induction vs) auto

lemma wsum_nonneg: "\<forall>v\<in>set vs. 0 \<le> v \<Longrightarrow> 0 \<le> w \<Longrightarrow> 0 \<le> wsum w vs"
  by (induction vs arbitrary: w) auto

lemma vsum_pos:
  "\<forall>v\<in>set vs. 0 \<le> v \<Longrightarrow> list_ex (\<lambda>v. ON_TRACK_VALUE < v) vs \<Longrightarrow> 0 < vsum vs"
proof (induction vs)
  case Nil
  then show ?case by simp
next
  case (Cons v vs)
  have "0 \<le> vsum vs" using Cons.prems(1) by (intro vsum_nonneg) simp
  then show ?case using Cons by auto
qed

lemma read_line_input_unfold:
  "read_line_input adc = [adc 0, adc 1, adc 2, adc 3, adc 4, adc 5]"
  by (simp add: read_line_input_def upt_rec eval_nat_numeral)

lemma length_read_line_input: "length (read_line_input adc) = 6"
  by (simp add: read_line_input_def)

lemma upt_0_Suc: "[0..<Suc n] = 0 # map Suc [0..<n]"
  by (simp add: upt_conv_Cons map_Suc_upt del: upt_Suc)

lemma wsum_index:
  "wsum w vs =
     (\<Sum>i\<leftarrow>[0..<length vs]. if NOISE_THRESHOLD < vs ! i then (w + int i * HEUR_OFFSET) * (vs ! i) else 0)"
proof (induction vs arbitrary: w)
  case Nil
  then show ?case by simp
next
  case (Cons v vs)
  show ?case
    by (simp add: upt_0_Suc Cons.IH comp_def algebra_simps del: upt_Suc cong: if_cong)
qed

lemma vsum_index:
  "vsum vs = (\<Sum>i\<leftarrow>[0..<length vs]. if NOISE_THRESHOLD < vs ! i then vs ! i else 0)"
proof (induction vs)
  case Nil
  then show ?case by simp
next
  case (Cons v vs)
  show ?case
    by (simp add: upt_0_Suc Cons.IH comp_def del: upt_Suc cong: if_cong)
qed

lemma weighted_average_wsum: "weighted_average vs = wsum 0 vs div vsum vs"
  by (simp add: weighted_average_def wsum_index vsum_index cong: if_cong)

text \<open>The loop on a sweep of the converter.\<close>

lemma scan_sweep:
  assumes "adc_sweep adc"
  defines "s \<equiv> scan_loop (read_line_input adc) scan_start"
  shows "uint (average s) = wsum 0 (map sint (read_line_input adc))"
    and "uint (sum_acc s) = vsum (map sint (read_line_input adc))"
proof -
  have "uint (average s) = uint (average scan_start) + wsum (uint (heur_offset scan_start)) (map sint (read_line_input adc))
       \<and> uint (sum_acc s) = uint (sum_acc scan_start) + vsum (map sint (read_line_input adc))"
    unfolding s_def
  proof (rule scan_loop_exact)
    show "list_all adc_reading (read_line_input adc)"
      using assms(1) by (simp add: adc_sweep_def)
  qed (simp_all add: scan_start_def length_read_line_input)
  then show "uint (average s) = wsum 0 (map sint (read_line_input adc))"
    and "uint (sum_acc s) = vsum (map sint (read_line_input adc))"
    by (simp_all add: scan_start_def)
qed

lemma sweep_nonneg:
  "adc_sweep adc \<Longrightarrow> \<forall>v\<in>set (map sint (read_line_input adc)). 0 \<le> v"
  by (auto simp: adc_sweep_def list_all_iff adc_reading_def)

lemma sweep_average_bounds:
  assumes "adc_sweep adc" "some_reading_on_track adc"
  defines "ints \<equiv> map sint (read_line_input adc)"
  shows "0 < vsum ints" and "0 \<le> wsum 0 ints div vsum ints"
    and "wsum 0 ints div vsum ints \<le> 5000"
proof -
  have nn: "\<forall>v\<in>set ints. 0 \<le> v"
    unfolding ints_def using assms(1) by (rule sweep_nonneg)
  have "list_ex (\<lambda>v. ON_TRACK_VALUE < v) ints"
    using assms(2) by (simp add: some_reading_on_track_def ints_def list_ex_iff)
  with nn show pos: "0 < vsum ints"
    by (rule vsum_pos)
  have "0 \<le> wsum 0 ints"
    using nn by (rule wsum_nonneg) simp
  then show "0 \<le> wsum 0 ints div vsum ints"
    using pos by (simp add: pos_imp_zdiv_nonneg_iff)
  have "wsum 0 ints \<le> 5000 * vsum ints"
    using nn by (rule wsum_le) (simp_all add: ints_def length_read_line_input)
  then have "wsum 0 ints div vsum ints \<le> (5000 * vsum ints) div vsum ints"
    using pos by (intro zdiv_mono1)
  then show "wsum 0 ints div vsum ints \<le> 5000"
    using pos by simp
qed

section \<open>The estimator\<close>

lemma on_track_sweep:
  "on_track (scan_loop (read_line_input adc) scan_start) = some_reading_on_track adc"
  by (simp add: scan_loop_on_track some_reading_on_track_def scan_start_def)

lemma no_reading_iff: "no_reading_on_track adc = (\<not> some_reading_on_track adc)"
  by (simp add: no_reading_on_track_def some_reading_on_track_def list_all_iff list_ex_iff)

lemma read_qrt_line_lost:
  assumes "no_reading_on_track adc"
  shows "read_qrt_line adc st =
         Inr (if sint (last_value st) < 2500 then 0 else 5000, st)"
  using assms
  by (simp add: read_qrt_line_def Let_def on_track_sweep no_reading_iff)

lemma read_qrt_line_found:
  assumes "adc_sweep adc" "some_reading_on_track adc"
  defines "q \<equiv> weighted_average (map sint (read_line_input adc))"
  shows "read_qrt_line adc st = Inr (word_of_int q, st\<lparr>last_value := word_of_int q\<rparr>)"
proof -
  define s where "s = scan_loop (read_line_input adc) scan_start"
  define ints where "ints = map sint (read_line_input adc)"
  have q: "q = wsum 0 ints div vsum ints"
    by (simp add: q_def ints_def weighted_average_wsum)
  have av: "uint (average s) = wsum 0 ints" and su: "uint (sum_acc s) = vsum ints"
    unfolding s_def ints_def using assms(1) by (rule scan_sweep)+
  have pos: "0 < vsum ints"
    unfolding ints_def using assms(1,2) by (rule sweep_average_bounds)
  have nz: "sum_acc s \<noteq> 0"
  proof
    assume "sum_acc s = 0"
    then have "uint (sum_acc s) = 0" by simp
    then show False using pos su by simp
  qed
  have "uint (average s div ucast (sum_acc s)) = uint (average s) div uint (ucast (sum_acc s) :: 32 word)"
    by (rule uint_div_distrib)
  then have "uint (average s div ucast (sum_acc s)) = q"
    by (simp add: uint_ucast_offset av su q)
  then have "word_of_int (uint (average s div ucast (sum_acc s))) = (word_of_int q :: 32 word)"
    by (rule arg_cong)
  then have lv: "average s div ucast (sum_acc s) = word_of_int q"
    by (simp only: word_of_int_uint)
  have uc: "(ucast (word_of_int q :: 32 word) :: 16 word) = word_of_int q"
    by (rule bit_word_eqI) (simp add: bit_simps)
  have ot: "on_track s"
    using assms(2) by (simp add: s_def on_track_sweep)
  show ?thesis
    unfolding read_qrt_line_def Let_def s_def [symmetric]
    using ot nz by (simp add: lv uc)
qed

lemma estimate_range:
  assumes "adc_sweep adc" "some_reading_on_track adc"
  defines "q \<equiv> weighted_average (map sint (read_line_input adc))"
  shows "0 \<le> q" "q \<le> 5000"
  using sweep_average_bounds(2,3) [OF assms(1,2)]
  by (simp_all add: q_def weighted_average_wsum)

lemma sint_word_of_int_16:
  assumes "0 \<le> q" "q \<le> 5000"
  shows "sint (word_of_int q :: 16 word) = q"
proof -
  have "- (2 ^ 15) \<le> q"
    using assms(1) by simp
  moreover have "q < 2 ^ 15"
    using assms(2) by simp
  ultimately have "signed_take_bit 15 q = q"
    by (rule signed_take_bit_int_eq_self)
  then show ?thesis
    by (simp add: sint_sbintrunc')
qed

lemma sint_word_of_int_32:
  assumes "0 \<le> q" "q \<le> 5000"
  shows "sint (word_of_int q :: 32 word) = q"
proof -
  have "- (2 ^ 31) \<le> q"
    using assms(1) by simp
  moreover have "q < 2 ^ 31"
    using assms(2) by simp
  ultimately have "signed_take_bit 31 q = q"
    by (rule signed_take_bit_int_eq_self)
  then show ?thesis
    by (simp add: sint_sbintrunc')
qed

lemma uint_word_of_int_16:
  assumes "0 \<le> q" "q \<le> 5000"
  shows "uint (word_of_int q :: 16 word) = q"
proof -
  have "q < 2 ^ 16"
    using assms(2) by simp
  with assms(1) have "take_bit 16 q = q"
    by (rule take_bit_int_eq_self)
  then show ?thesis
    by (simp add: uint_word_of_int_eq)
qed

lemma read_qrt_line_estimate_ok:
  assumes "adc_sweep adc" "estimate_ok st"
  shows "\<exists>p st'. read_qrt_line adc st = Inr (p, st') \<and> estimate_ok st'"
proof (cases "some_reading_on_track adc")
  case True
  note b = estimate_range [OF assms(1) True]
  show ?thesis
    using b by (simp add: read_qrt_line_found [OF assms(1) True] estimate_ok_def sint_word_of_int_32)
next
  case False
  then have "no_reading_on_track adc"
    by (simp add: no_reading_iff)
  then show ?thesis
    using assms(2) by (simp add: read_qrt_line_lost)
qed

lemma run_estimator_estimate_ok:
  "list_all adc_sweep adcs \<Longrightarrow> estimate_ok st \<Longrightarrow>
   \<exists>st'. run_estimator adcs st = Inr st' \<and> estimate_ok st'"
proof (induction adcs arbitrary: st)
  case Nil
  then show ?case by simp
next
  case (Cons adc adcs)
  from Cons.prems obtain p st1 where
    1: "read_qrt_line adc st = Inr (p, st1)" and 2: "estimate_ok st1"
    using read_qrt_line_estimate_ok [of adc st] by auto
  from Cons.IH [OF _ 2] Cons.prems(1) obtain st' where
    "run_estimator adcs st1 = Inr st'" "estimate_ok st'"
    by auto
  then show ?case by (simp add: 1)
qed

text \<open>
  Claim C4.  When no reading of the sweep exceeds \<open>ON_TRACK_VALUE\<close>, the estimator
  does not reach its division (the only operation that can fault) and returns a boundary:
  0 if the stored estimate is below the midpoint \<open>(N - 1) * HEUR_OFFSET / 2\<close>, and
  \<open>(N - 1) * HEUR_OFFSET\<close> otherwise.  The readings are arbitrary 16-bit values here.
\<close>

theorem track_loss_boundary:
  "no_reading_on_track adc \<Longrightarrow>
   \<exists>st'. read_qrt_line adc st =
     Inr (if sint (last_value st) < (SENSOR_NUM - 1) * HEUR_OFFSET div 2 then 0
          else word_of_int ((SENSOR_NUM - 1) * HEUR_OFFSET), st')"
  by (simp add: read_qrt_line_lost)

text \<open>
  The sweep of six zeros has no reading on the track and leaves the divisor of the average
  at 0; the estimator returns 0 from the initial state and 5000 when the stored estimate is
  the midpoint 2500.
\<close>

theorem track_loss_boundary_witness:
  "no_reading_on_track (sweep_of [0, 0, 0, 0, 0, 0]) \<and>
   sum_acc (scan_loop (read_line_input (sweep_of [0, 0, 0, 0, 0, 0])) scan_start) = 0 \<and>
   (\<exists>st'. read_qrt_line (sweep_of [0, 0, 0, 0, 0, 0]) initial_robot = Inr (0, st')) \<and>
   (\<exists>st'. read_qrt_line (sweep_of [0, 0, 0, 0, 0, 0]) (initial_robot\<lparr>last_value := 2500\<rparr>) = Inr (5000, st'))"
proof -
  have h: "no_reading_on_track (sweep_of [0, 0, 0, 0, 0, 0])"
    by (simp add: no_reading_on_track_def read_line_input_unfold sweep_of_def)
  have s: "sum_acc (scan_loop (read_line_input (sweep_of [0, 0, 0, 0, 0, 0])) scan_start) = 0"
    by (simp add: read_line_input_unfold sweep_of_def scan_step_def scan_start_def)
  show ?thesis
    using h s track_loss_boundary [OF h, of initial_robot]
      track_loss_boundary [OF h, of "initial_robot\<lparr>last_value := 2500\<rparr>"]
    by (simp add: initial_robot_def)
qed

text \<open>
  Claim C5.  A track-loss cycle leaves the whole state as it was, in particular the stored
  estimate: the boundary is not written back.  Hence two loss cycles from the same state,
  whatever their sweeps, return the same boundary.
\<close>

theorem track_loss_keeps_state:
  "no_reading_on_track adc \<Longrightarrow> no_reading_on_track adc' \<Longrightarrow>
   \<exists>p. read_qrt_line adc st = Inr (p, st) \<and> read_qrt_line adc' st = Inr (p, st)"
  by (simp add: read_qrt_line_lost)

text \<open>
  Scenario C of the specification: with the stored estimate 4000 and readings all 0 the
  estimator returns 5000 and the stored estimate remains 4000; a second sweep with noise
  between the two thresholds resolves to the same boundary.
\<close>

theorem track_loss_keeps_state_witness:
  "no_reading_on_track (sweep_of [0, 0, 0, 0, 0, 0]) \<and>
   no_reading_on_track (sweep_of [0, 60, 150, 0, 0, 0]) \<and>
   read_qrt_line (sweep_of [0, 0, 0, 0, 0, 0]) (initial_robot\<lparr>last_value := 4000\<rparr>) =
     Inr (5000, initial_robot\<lparr>last_value := 4000\<rparr>) \<and>
   read_qrt_line (sweep_of [0, 60, 150, 0, 0, 0]) (initial_robot\<lparr>last_value := 4000\<rparr>) =
     Inr (5000, initial_robot\<lparr>last_value := 4000\<rparr>)"
proof -
  have h: "no_reading_on_track (sweep_of [0, 0, 0, 0, 0, 0])"
    by (simp add: no_reading_on_track_def read_line_input_unfold sweep_of_def)
  have h': "no_reading_on_track (sweep_of [0, 60, 150, 0, 0, 0])"
    by (simp add: no_reading_on_track_def read_line_input_unfold sweep_of_def)
  have b: "read_qrt_line (sweep_of [0, 0, 0, 0, 0, 0]) (initial_robot\<lparr>last_value := 4000\<rparr>) =
     Inr (5000, initial_robot\<lparr>last_value := 4000\<rparr>)"
    by (simp add: read_qrt_line_def read_line_input_unfold sweep_of_def scan_step_def
        scan_start_def)
  show ?thesis
    using h h' b track_loss_keeps_state [OF h h', of "initial_robot\<lparr>last_value := 4000\<rparr>"]
    by auto
qed

text \<open>
  Claim C6.  For every sweep of the converter (six readings between 0 and 1023) with at least
  one reading strictly above \<open>ON_TRACK_VALUE\<close>, the estimator returns a value in the
  closed range from 0 to \<open>(N - 1) * HEUR_OFFSET\<close>.
\<close>

theorem estimate_within_range:
  "adc_sweep adc \<Longrightarrow> some_reading_on_track adc \<Longrightarrow>
   \<exists>p st'. read_qrt_line adc st = Inr (p, st') \<and>
     0 \<le> sint p \<and> sint p \<le> (SENSOR_NUM - 1) * HEUR_OFFSET"
proof -
  assume a: "adc_sweep adc" and t: "some_reading_on_track adc"
  note b = estimate_range [OF a t]
  show ?thesis
    using b by (simp add: read_qrt_line_found [OF a t] sint_word_of_int_16)
qed

text \<open>
  The strongest reading under the first sensor and an on-track reading under the last one:
  the sweep is on the track and the estimate is within the range.
\<close>

theorem estimate_within_range_witness:
  "adc_sweep (sweep_of [1023, 0, 0, 0, 0, 201]) \<and>
   some_reading_on_track (sweep_of [1023, 0, 0, 0, 0, 201]) \<and>
   (\<exists>p st'. read_qrt_line (sweep_of [1023, 0, 0, 0, 0, 201]) initial_robot = Inr (p, st') \<and>
      0 \<le> sint p \<and> sint p \<le> 5000)"
proof -
  have a: "adc_sweep (sweep_of [1023, 0, 0, 0, 0, 201])"
    by (simp add: adc_sweep_def adc_reading_def read_line_input_unfold sweep_of_def)
  have t: "some_reading_on_track (sweep_of [1023, 0, 0, 0, 0, 201])"
    by (simp add: some_reading_on_track_def read_line_input_unfold sweep_of_def)
  show ?thesis
    using a t estimate_within_range [OF a t, of initial_robot] by simp
qed

text \<open>
  Claim C7.  For every sweep of the converter the loop sets the on-track flag exactly when
  some reading is strictly above \<open>ON_TRACK_VALUE\<close>.  On an on-track cycle the value
  returned, which is also the value stored, is the integer weighted average over exactly
  the readings strictly above \<open>NOISE_THRESHOLD\<close>; on any other cycle, also when
  readings lie between the two thresholds, the state is returned unchanged.
\<close>

theorem estimate_is_weighted_average:
  assumes "adc_sweep adc"
  shows "on_track (scan_loop (read_line_input adc) scan_start) = some_reading_on_track adc \<and>
    (if some_reading_on_track adc
     then \<exists>p. read_qrt_line adc st = Inr (p, st\<lparr>last_value := ucast p\<rparr>) \<and>
            uint p = weighted_average (map sint (read_line_input adc))
     else \<exists>p. read_qrt_line adc st = Inr (p, st))"
proof (cases "some_reading_on_track adc")
  case True
  define q where "q = weighted_average (map sint (read_line_input adc))"
  have b: "0 \<le> q" "q \<le> 5000"
    unfolding q_def using assms True by (rule estimate_range)+
  have u: "uint (word_of_int q :: 16 word) = q"
    using b by (rule uint_word_of_int_16)
  have c: "(ucast (word_of_int q :: 16 word) :: 32 word) = word_of_int q"
    by (simp only: ucast_eq u)
  have r: "read_qrt_line adc st = Inr (word_of_int q, st\<lparr>last_value := word_of_int q\<rparr>)"
    unfolding q_def using assms True by (rule read_qrt_line_found)
  have "read_qrt_line adc st =
          Inr (word_of_int q, st\<lparr>last_value := ucast (word_of_int q :: 16 word)\<rparr>) \<and>
        uint (word_of_int q :: 16 word) = q"
    using r u by (simp only: c)
  then have "\<exists>p. read_qrt_line adc st = Inr (p, st\<lparr>last_value := ucast p\<rparr>) \<and> uint p = q"
    by (rule exI)
  then show ?thesis
    using True by (simp add: on_track_sweep q_def)
next
  case False
  then have "no_reading_on_track adc"
    by (simp add: no_reading_iff)
  then show ?thesis
    using False by (simp add: read_qrt_line_lost on_track_sweep)
qed

text \<open>
  The reading 100 lies between the thresholds.  Beside the on-track reading 900 it enters
  both sums: \<open>(900 * 2000 + 100 * 3000) div (900 + 100) = 2100\<close>.  Two such readings
  alone do not put the sweep on the track.
\<close>

theorem estimate_is_weighted_average_witness:
  "adc_sweep (sweep_of [0, 0, 900, 100, 0, 0]) \<and>
   some_reading_on_track (sweep_of [0, 0, 900, 100, 0, 0]) \<and>
   weighted_average (map sint (read_line_input (sweep_of [0, 0, 900, 100, 0, 0]))) = 2100 \<and>
   (\<exists>p. read_qrt_line (sweep_of [0, 0, 900, 100, 0, 0]) initial_robot =
          Inr (p, initial_robot\<lparr>last_value := ucast p\<rparr>) \<and> uint p = 2100) \<and>
   adc_sweep (sweep_of [0, 0, 100, 100, 0, 0]) \<and>
   \<not> some_reading_on_track (sweep_of [0, 0, 100, 100, 0, 0]) \<and>
   \<not> on_track (scan_loop (read_line_input (sweep_of [0, 0, 100, 100, 0, 0])) scan_start)"
proof -
  have a: "adc_sweep (sweep_of [0, 0, 900, 100, 0, 0])"
    by (simp add: adc_sweep_def adc_reading_def read_line_input_unfold sweep_of_def)
  have t: "some_reading_on_track (sweep_of [0, 0, 900, 100, 0, 0])"
    by (simp add: some_reading_on_track_def read_line_input_unfold sweep_of_def)
  have w: "weighted_average (map sint (read_line_input (sweep_of [0, 0, 900, 100, 0, 0]))) = 2100"
    by (simp add: weighted_average_def read_line_input_unfold sweep_of_def upt_rec
        eval_nat_numeral)
  have a': "adc_sweep (sweep_of [0, 0, 100, 100, 0, 0])"
    by (simp add: adc_sweep_def adc_reading_def read_line_input_unfold sweep_of_def)
  have t': "\<not> some_reading_on_track (sweep_of [0, 0, 100, 100, 0, 0])"
    by (simp add: some_reading_on_track_def read_line_input_unfold sweep_of_def)
  show ?thesis
    using a t w a' t'
      estimate_is_weighted_average [OF a, of initial_robot]
      estimate_is_weighted_average [OF a', of initial_robot]
    by simp
qed

text \<open>
  Claim C9.  Starting from the initial state, after any sequence of calls of the estimator on
  sweeps of the converter, every call has returned and the stored estimate lies between 0
  and \<open>(N - 1) * HEUR_OFFSET\<close>.
\<close>

theorem last_value_invariant:
  "list_all adc_sweep adcs \<Longrightarrow>
   \<exists>st'. run_estimator adcs initial_robot = Inr st' \<and>
     0 \<le> sint (last_value st') \<and> sint (last_value st') \<le> (SENSOR_NUM - 1) * HEUR_OFFSET"
proof -
  assume a: "list_all adc_sweep adcs"
  have "estimate_ok initial_robot"
    by (simp add: estimate_ok_def initial_robot_def)
  with a have "\<exists>st'. run_estimator adcs initial_robot = Inr st' \<and> estimate_ok st'"
    by (rule run_estimator_estimate_ok)
  then show ?thesis
    by (simp add: estimate_ok_def)
qed

text \<open>
  Three calls: the line lost, the line found under the last two sensors, the line lost
  again with noise under the first sensor.
\<close>

theorem last_value_invariant_witness:
  "list_all adc_sweep
     [sweep_of [0, 0, 0, 0, 0, 0], sweep_of [0, 0, 0, 0, 300, 1023], sweep_of [60, 0, 0, 0, 0, 0]] \<and>
   (\<exists>st'. run_estimator
       [sweep_of [0, 0, 0, 0, 0, 0], sweep_of [0, 0, 0, 0, 300, 1023], sweep_of [60, 0, 0, 0, 0, 0]]
       initial_robot = Inr st' \<and>
     0 \<le> sint (last_value st') \<and> sint (last_value st') \<le> 5000)"
proof -
  have v: "list_all adc_sweep
     [sweep_of [0, 0, 0, 0, 0, 0], sweep_of [0, 0, 0, 0, 300, 1023], sweep_of [60, 0, 0, 0, 0, 0]]"
    by (simp add: adc_sweep_def adc_reading_def read_line_input_unfold sweep_of_def)
  show ?thesis
    using v last_value_invariant [OF v] by simp
qed

section \<open>The controller\<close>

lemma read_qrt_line_frame:
  assumes "read_qrt_line adc st = Inr (p, st2)"
  shows "st2 = st\<lparr>last_value := last_value st2\<rparr>"
  using assms by (auto simp: read_qrt_line_def Let_def split: if_splits)

lemma read_qrt_line_start_cycle:
  assumes "read_qrt_line adc st = Inr (p, st2)"
  shows "read_qrt_line adc (start_cycle st) = Inr (p, (start_cycle st)\<lparr>last_value := last_value st2\<rparr>)"
  using assms by (auto simp: read_qrt_line_def Let_def start_cycle_def split: if_splits)

lemma read_qrt_line_total:
  assumes "adc_sweep adc"
  shows "\<exists>p st2. read_qrt_line adc st = Inr (p, st2)"
proof (cases "some_reading_on_track adc")
  case True
  with assms show ?thesis
    by (simp add: read_qrt_line_found)
next
  case False
  then have "no_reading_on_track adc"
    by (simp add: no_reading_iff)
  then show ?thesis
    by (simp add: read_qrt_line_lost)
qed

lemma handle_move_result:
  assumes "read_qrt_line adc st = Inr (p, st2)"
  shows "\<exists>st'. handle_move adc st = Inr st' \<and>
    integral st' = integral (start_cycle st) + scast (position_error p) \<and>
    reset_integral st' = reset_integral (start_cycle st) + 1 \<and>
    last_error st' = last_error st \<and>
    last_value st' = last_value st2"
proof -
  have l: "last_error (start_cycle st) = last_error st"
    by (simp add: start_cycle_def)
  show ?thesis
    unfolding handle_move_def start_cycle_def [symmetric]
    by (simp add: read_qrt_line_start_cycle [OF assms] Let_def split_beta
        left_motor_set_def right_motor_set_def l)
qed

lemma handle_move_total:
  assumes "adc_sweep adc"
  shows "\<exists>st'. handle_move adc st = Inr st' \<and>
    reset_integral st' = reset_integral (start_cycle st) + 1"
proof -
  obtain p st2 where "read_qrt_line adc st = Inr (p, st2)"
    using read_qrt_line_total [OF assms] by blast
  then show ?thesis
    using handle_move_result [of adc st p st2] by blast
qed

lemma run_moves_count:
  "list_all adc_sweep adcs \<Longrightarrow> uint (reset_integral st) + int (length adcs) \<le> 125 \<Longrightarrow>
   \<exists>st'. run_moves adcs st = Inr st' \<and>
     uint (reset_integral st') = uint (reset_integral st) + int (length adcs)"
proof (induction adcs arbitrary: st)
  case Nil
  then show ?case by simp
next
  case (Cons adc adcs)
  have c: "uint (reset_integral st) \<le> 124"
    using Cons.prems(2) by simp
  then have ne: "reset_integral st \<noteq> 125"
    by auto
  obtain st1 where 1: "handle_move adc st = Inr st1"
    and 2: "reset_integral st1 = reset_integral st + 1"
    using handle_move_total [of adc st] Cons.prems(1) ne by (auto simp: start_cycle_def)
  have "uint (reset_integral st) + uint (1 :: 16 word) < 2 ^ LENGTH(16)"
    using c by simp
  then have "uint (reset_integral st + 1) = uint (reset_integral st) + uint (1 :: 16 word)"
    by (simp only: uint_add_lem)
  then have 3: "uint (reset_integral st1) = uint (reset_integral st) + 1"
    by (simp add: 2)
  have "\<exists>st'. run_moves adcs st1 = Inr st' \<and>
     uint (reset_integral st') = uint (reset_integral st1) + int (length adcs)"
    using Cons.prems by (intro Cons.IH) (simp_all add: 3)
  then show ?case
    by (auto simp: 1 3)
qed

lemma run_moves_block:
  assumes "list_all adc_sweep adcs" "length adcs = 125"
    and "reset_integral st = 0 \<or> reset_integral st = 125"
  shows "\<exists>st'. run_moves adcs st = Inr st' \<and> reset_integral st' = 125"
proof -
  obtain adc rest where a: "adcs = adc # rest"
    using assms(2) by (cases adcs) auto
  have r: "reset_integral (start_cycle st) = 0"
    using assms(3) by (auto simp: start_cycle_def)
  obtain st1 where 1: "handle_move adc st = Inr st1" and 2: "reset_integral st1 = 1"
    using handle_move_total [of adc st] assms(1) by (auto simp: a r)
  have "\<exists>st'. run_moves rest st1 = Inr st' \<and>
     uint (reset_integral st') = uint (reset_integral st1) + int (length rest)"
    using assms(1,2) by (intro run_moves_count) (simp_all add: a 2)
  then obtain st' where 3: "run_moves rest st1 = Inr st'"
    and 4: "uint (reset_integral st') = 125"
    using assms(2) by (auto simp: a 2)
  have "word_of_int (uint (reset_integral st')) = (word_of_int 125 :: 16 word)"
    by (simp only: 4)
  then have "reset_integral st' = 125"
    by (simp only: word_of_int_uint) simp
  then show ?thesis
    by (simp add: a 1 3)
qed

lemma run_moves_append:
  "run_moves (xs @ ys) st =
     (case run_moves xs st of Inl f \<Rightarrow> Inl f | Inr st' \<Rightarrow> run_moves ys st')"
  by (induction xs arbitrary: st) (auto split: sum.splits)

lemma run_moves_blocks:
  "list_all adc_sweep adcs \<Longrightarrow> length adcs = 125 * Suc k \<Longrightarrow>
   reset_integral st = 0 \<or> reset_integral st = 125 \<Longrightarrow>
   \<exists>st'. run_moves adcs st = Inr st' \<and> reset_integral st' = 125"
proof (induction k arbitrary: adcs st)
  case 0
  then show ?case by (intro run_moves_block) simp_all
next
  case (Suc k)
  define xs where "xs = take 125 adcs"
  define ys where "ys = drop 125 adcs"
  have s: "adcs = xs @ ys"
    by (simp add: xs_def ys_def)
  have lx: "length xs = 125" and ly: "length ys = 125 * Suc k"
    using Suc.prems(2) by (simp_all add: xs_def ys_def)
  have vx: "list_all adc_sweep xs" and vy: "list_all adc_sweep ys"
    using Suc.prems(1) by (simp_all add: s)
  obtain st1 where 1: "run_moves xs st = Inr st1" and 2: "reset_integral st1 = 125"
    using run_moves_block [OF vx lx Suc.prems(3)] by blast
  have "\<exists>st'. run_moves ys st1 = Inr st' \<and> reset_integral st' = 125"
    using vy ly 2 by (intro Suc.IH) simp_all
  then show ?case
    by (simp add: s run_moves_append 1)
qed

lemma round_binary32_zero: "round_binary32 0 = 0"
  by (simp add: round_binary32_def round_half_even_def)

lemma pid_value_zero: "pid_value 0 0 0 = 0"
  by (simp add: pid_value_def fmul_def fadd_def float_of_word_def int_of_float_def
      truncate_toward_zero_def round_binary32_zero)

lemma clamp_range:
  assumes le: "uint mn \<le> uint mx"
  shows "uint mn \<le> uint (clamp v mn mx) \<and> uint (clamp v mn mx) \<le> uint mx"
proof (cases "sint v < uint mn")
  case True
  then show ?thesis using le by (simp add: clamp_def)
next
  case lo: False
  show ?thesis
  proof (cases "uint mx < sint v")
    case True
    then show ?thesis using le lo by (simp add: clamp_def)
  next
    case False
    have m: "uint mx < 256" using uint_lt2p [of mx] by simp
    have b: "0 \<le> sint v" "sint v < 256"
      using lo False m uint_ge_0 [of mn] by linarith+
    have su: "sint v = uint v"
      using b by (simp add: sint_nonneg_uint)
    have "uint (ucast v :: 8 word) = take_bit 8 (uint v)"
      by (simp add: unsigned_ucast_eq)
    also have "\<dots> = uint v"
      using b su by (intro take_bit_int_eq_self) simp_all
    finally have "uint (ucast v :: 8 word) = sint v"
      using su by simp
    then show ?thesis using lo False by (simp add: clamp_def)
  qed
qed

lemma sint_ucast_duty:
  fixes c :: "8 word"
  shows "sint (ucast c :: 16 word) = uint c"
proof -
  have "uint (ucast c :: 16 word) = uint c"
    by (rule uint_up_ucast) (simp add: is_up)
  moreover have "uint c < 256"
    using uint_lt2p [of c] by simp
  ultimately show ?thesis
    by (simp add: sint16_cases)
qed

text \<open>
  Claim C1, as the code has it.  For every value of \<^verbatim>\<open>pid\<close> both speeds lie between 0
  and the one maximum \<open>MAX_SPEED\<close> that both calls of \<^verbatim>\<open>clamp\<close> are given.
\<close>

theorem motor_speeds_shared_max:
  "0 \<le> sint (fst (motor_speeds pid)) \<and> sint (fst (motor_speeds pid)) \<le> MAX_SPEED \<and>
   0 \<le> sint (snd (motor_speeds pid)) \<and> sint (snd (motor_speeds pid)) \<le> MAX_SPEED"
proof -
  have "uint (0 :: 8 word) \<le> uint (MAX_SPEED :: 8 word)"
    by simp
  note r = clamp_range [OF this]
  show ?thesis
    using r [of "BASE_SPEED + pid"] r [of "BASE_SPEED - pid"]
    by (simp add: motor_speeds_def Let_def sint_ucast_duty)
qed

text \<open>
  Claim C1 as stated fails: \<open>LEFT_MAX_SPEED\<close> and \<open>RIGHT_MAX_SPEED\<close> are defined
  and never used.  For \<^verbatim>\<open>pid = 100\<close> the left speed is 240, above 220; for
  \<^verbatim>\<open>pid = -100\<close> the right speed is 240, above 210.
\<close>

theorem motor_speeds_exceed_calibrated_max:
  "sint (fst (motor_speeds 100)) = MAX_SPEED \<and>
   \<not> sint (fst (motor_speeds 100)) \<le> LEFT_MAX_SPEED \<and>
   sint (snd (motor_speeds (- 100))) = MAX_SPEED \<and>
   \<not> sint (snd (motor_speeds (- 100))) \<le> RIGHT_MAX_SPEED"
  by (simp add: motor_speeds_def clamp_def)

text \<open>
  Claim C10.  For every position between 0 and \<open>(N - 1) * HEUR_OFFSET\<close>, the 16-bit
  unsigned subtraction of \<open>MIDDLE_ERROR\<close>, read as a signed \<^verbatim>\<open>int\<close>, is the exact
  difference of the two numbers.
\<close>

theorem position_error_exact:
  "uint position \<le> (SENSOR_NUM - 1) * HEUR_OFFSET \<Longrightarrow>
   sint (position_error position) = uint position - MIDDLE_ERROR"
proof -
  assume a: "uint position \<le> (SENSOR_NUM - 1) * HEUR_OFFSET"
  have nn: "0 \<le> uint position" by simp
  have s: "sint position = uint position"
    using a by (simp add: sint16_cases)
  have "- (2 ^ 15) \<le> uint position - 2500"
    using nn by (simp del: uint_ge_0)
  moreover have "uint position - 2500 < 2 ^ 15"
    using a by simp
  ultimately have "signed_take_bit 15 (uint position - 2500) = uint position - 2500"
    by (rule signed_take_bit_int_eq_self)
  then show ?thesis
    using s unfolding position_error_def
    by (simp add: sint_word_ariths)
qed

text \<open>
  The position 4000 gives the error 1500, the position 0 the error -2500.
\<close>

theorem position_error_exact_witness:
  "uint (4000 :: 16 word) \<le> (SENSOR_NUM - 1) * HEUR_OFFSET \<and>
   sint (position_error 4000) = 1500 \<and>
   uint (0 :: 16 word) \<le> (SENSOR_NUM - 1) * HEUR_OFFSET \<and>
   sint (position_error 0) = - 2500"
  using position_error_exact [of 4000] position_error_exact [of 0] by simp

text \<open>The estimate of scenario A, by evaluation.\<close>

lemma scenario_A_estimate:
  "read_qrt_line (sweep_of [0, 0, 900, 900, 0, 0]) initial_robot =
     Inr (2500, initial_robot\<lparr>last_value := 2500\<rparr>)"
  by (simp add: read_qrt_line_def read_line_input_unfold sweep_of_def scan_start_def
      scan_step_def initial_robot_def)

text \<open>
  Claim C8 (scenario A).  For the sweep 0, 0, 900, 900, 0, 0 and the initial state the
  estimator returns exactly 2500, the error is 0, and both motor commands (the registers
  \<^verbatim>\<open>OCR0A\<close> and \<^verbatim>\<open>OCR2B\<close>) are \<open>BASE_SPEED\<close>.
\<close>

theorem scenario_A:
  "read_qrt_line (sweep_of [0, 0, 900, 900, 0, 0]) initial_robot =
     Inr (MIDDLE_ERROR, initial_robot\<lparr>last_value := MIDDLE_ERROR\<rparr>) \<and>
   position_error MIDDLE_ERROR = 0 \<and>
   motor_speeds (pid_value 0 0 0) = (BASE_SPEED, BASE_SPEED) \<and>
   handle_move (sweep_of [0, 0, 900, 900, 0, 0]) initial_robot =
     Inr (initial_robot\<lparr>last_value := MIDDLE_ERROR, reset_integral := 1,
            OCR0A := BASE_SPEED, OCR2B := BASE_SPEED\<rparr>)"
proof -
  have r: "reset_integral initial_robot = 0"
    by (simp add: initial_robot_def)
  have m: "motor_speeds (pid_value 0 0 0) = (BASE_SPEED, BASE_SPEED)"
    by (simp add: pid_value_zero motor_speeds_def clamp_def)
  have h: "handle_move (sweep_of [0, 0, 900, 900, 0, 0]) initial_robot =
     Inr (initial_robot\<lparr>last_value := MIDDLE_ERROR, reset_integral := 1,
            OCR0A := BASE_SPEED, OCR2B := BASE_SPEED\<rparr>)"
    unfolding handle_move_def r
    by (simp add: scenario_A_estimate)
      (simp add: position_error_def Let_def initial_robot_def pid_value_zero motor_speeds_def
        clamp_def left_motor_set_def right_motor_set_def)
  show ?thesis
    using m h by (simp add: scenario_A_estimate position_error_def)
qed

text \<open>
  The line under the leftmost sensor only: the estimate is 0 from every state, the error of
  the cycle is -2500.
\<close>

lemma leftmost_estimate:
  "read_qrt_line (sweep_of [900, 0, 0, 0, 0, 0]) st = Inr (0, st\<lparr>last_value := 0\<rparr>)"
  by (simp add: read_qrt_line_def read_line_input_unfold sweep_of_def scan_start_def
      scan_step_def)

lemma leftmost_move:
  "\<exists>st'. handle_move (sweep_of [900, 0, 0, 0, 0, 0]) st = Inr st' \<and>
    integral st' = integral (start_cycle st) - 2500 \<and>
    reset_integral st' = reset_integral (start_cycle st) + 1 \<and>
    last_error st' = last_error st"
  using handle_move_result [OF leftmost_estimate, of st]
  by (auto simp: position_error_def)

text \<open>
  Claim C2 against the code.  \<^verbatim>\<open>handle_move\<close> reads \<^verbatim>\<open>last_error\<close> and never
  assigns it.  With the line under the leftmost sensor the error of a cycle is -2500, and
  after one such cycle and after two of them \<^verbatim>\<open>last_error\<close> is still 0: the
  derivative term of the second cycle is computed from 0, not from -2500.
\<close>

theorem last_error_never_stored:
  "sint (position_error 0) = - MIDDLE_ERROR \<and>
   map_sum id last_error (handle_move (sweep_of [900, 0, 0, 0, 0, 0]) initial_robot) = Inr 0 \<and>
   map_sum id last_error
     (run_moves [sweep_of [900, 0, 0, 0, 0, 0], sweep_of [900, 0, 0, 0, 0, 0]] initial_robot) = Inr 0"
proof -
  obtain st1 where 1: "handle_move (sweep_of [900, 0, 0, 0, 0, 0]) initial_robot = Inr st1"
    and l1: "last_error st1 = last_error initial_robot"
    using leftmost_move [of initial_robot] by blast
  obtain st2 where 2: "handle_move (sweep_of [900, 0, 0, 0, 0, 0]) st1 = Inr st2"
    and l2: "last_error st2 = last_error st1"
    using leftmost_move [of st1] by blast
  have "last_error initial_robot = 0"
    by (simp add: initial_robot_def)
  then show ?thesis
    by (simp add: 1 2 l1 l2 position_error_def)
qed

lemma leftmost_run:
  "uint (reset_integral st) + int n \<le> 125 \<Longrightarrow>
   \<exists>st'. run_moves (replicate n (sweep_of [900, 0, 0, 0, 0, 0])) st = Inr st' \<and>
     integral st' = integral st - 2500 * of_nat n \<and>
     uint (reset_integral st') = uint (reset_integral st) + int n"
proof (induction n arbitrary: st)
  case 0
  then show ?case by simp
next
  case (Suc n)
  have c: "uint (reset_integral st) \<le> 124"
    using Suc.prems by simp
  then have ne: "reset_integral st \<noteq> 125"
    by auto
  obtain st1 where 1: "handle_move (sweep_of [900, 0, 0, 0, 0, 0]) st = Inr st1"
    and i1: "integral st1 = integral st - 2500"
    and r1: "reset_integral st1 = reset_integral st + 1"
    using leftmost_move [of st] ne by (auto simp: start_cycle_def)
  have "uint (reset_integral st) + uint (1 :: 16 word) < 2 ^ LENGTH(16)"
    using c by simp
  then have "uint (reset_integral st + 1) = uint (reset_integral st) + uint (1 :: 16 word)"
    by (simp only: uint_add_lem)
  then have u1: "uint (reset_integral st1) = uint (reset_integral st) + 1"
    by (simp add: r1)
  have "\<exists>st'. run_moves (replicate n (sweep_of [900, 0, 0, 0, 0, 0])) st1 = Inr st' \<and>
     integral st' = integral st1 - 2500 * of_nat n \<and>
     uint (reset_integral st') = uint (reset_integral st1) + int n"
    using Suc.prems by (intro Suc.IH) (simp add: u1)
  then show ?case
    by (auto simp: 1 i1 u1 algebra_simps)
qed

text \<open>
  Claim C3 as stated fails.  With the line under the leftmost sensor in every cycle, the
  integral is -312500 after the 125th call, and -2500 after the 126th, the call that resets
  it before adding its own error.
\<close>

theorem integral_after_reset_iter_calls:
  "map_sum id integral
     (run_moves (replicate INTEGRAL_RESET_ITER (sweep_of [900, 0, 0, 0, 0, 0])) initial_robot) =
     Inr (- 312500) \<and>
   (- 312500 :: 32 word) \<noteq> 0 \<and>
   map_sum id integral
     (run_moves (replicate INTEGRAL_RESET_ITER (sweep_of [900, 0, 0, 0, 0, 0]) @
                 [sweep_of [900, 0, 0, 0, 0, 0]]) initial_robot) =
     Inr (- 2500) \<and>
   (- 2500 :: 32 word) \<noteq> 0"
proof -
  have "uint (reset_integral initial_robot) + int 125 \<le> 125"
    by (simp add: initial_robot_def)
  from leftmost_run [OF this] obtain st1 where
    1: "run_moves (replicate 125 (sweep_of [900, 0, 0, 0, 0, 0])) initial_robot = Inr st1"
    and i: "integral st1 = integral initial_robot - 2500 * of_nat 125"
    and r: "uint (reset_integral st1) = uint (reset_integral initial_robot) + int 125"
    by blast
  have "uint (reset_integral st1) = 125"
    using r by (simp add: initial_robot_def)
  then have "word_of_int (uint (reset_integral st1)) = (word_of_int 125 :: 16 word)"
    by (simp only:)
  then have "reset_integral st1 = 125"
    by (simp only: word_of_int_uint) simp
  then have s: "integral (start_cycle st1) = 0"
    by (simp add: start_cycle_def)
  obtain st2 where 2: "handle_move (sweep_of [900, 0, 0, 0, 0, 0]) st1 = Inr st2"
    and i2: "integral st2 = integral (start_cycle st1) - 2500"
    using leftmost_move [of st1] by blast
  have i1: "integral st1 = - 312500"
    using i by (simp add: initial_robot_def)
  show ?thesis
    by (simp add: run_moves_append 1 2 i1 i2 s)
qed

text \<open>
  Claim C3, as the code has it.  After any \<open>125 * (k + 1)\<close> calls on sweeps of the
  converter the cycle counter stands at \<open>INTEGRAL_RESET_ITER\<close>; the next call sets the
  integral to 0 before it accumulates, so that immediately after that call the integral is
  exactly the error of that call, whatever was accumulated before, and the counter is 1.
\<close>

theorem integral_restarts_after_reset:
  assumes "list_all adc_sweep adcs" "length adcs = INTEGRAL_RESET_ITER * Suc k" "adc_sweep adc"
  shows "\<exists>st1 p st2 st'. run_moves adcs initial_robot = Inr st1 \<and>
     reset_integral st1 = INTEGRAL_RESET_ITER \<and>
     read_qrt_line adc st1 = Inr (p, st2) \<and>
     handle_move adc st1 = Inr st' \<and>
     integral st' = scast (position_error p) \<and> reset_integral st' = 1"
proof -
  have "reset_integral initial_robot = 0 \<or> reset_integral initial_robot = 125"
    by (simp add: initial_robot_def)
  from run_moves_blocks [OF assms(1,2) this] obtain st1 where
    1: "run_moves adcs initial_robot = Inr st1" and 2: "reset_integral st1 = 125"
    by blast
  obtain p st2 where 3: "read_qrt_line adc st1 = Inr (p, st2)"
    using read_qrt_line_total [OF assms(3)] by blast
  have s: "integral (start_cycle st1) = 0" "reset_integral (start_cycle st1) = 0"
    by (simp_all add: start_cycle_def 2)
  from handle_move_result [OF 3] obtain st' where
    "handle_move adc st1 = Inr st'" "integral st' = scast (position_error p)"
    "reset_integral st' = 1"
    by (auto simp: s)
  with 1 2 3 show ?thesis
    by blast
qed

text \<open>
  125 cycles with the line under the leftmost sensor, then one cycle with the line under
  the rightmost sensor.
\<close>

theorem integral_restarts_after_reset_witness:
  "list_all adc_sweep (replicate (INTEGRAL_RESET_ITER * Suc 0) (sweep_of [900, 0, 0, 0, 0, 0])) \<and>
   length (replicate (INTEGRAL_RESET_ITER * Suc 0) (sweep_of [900, 0, 0, 0, 0, 0])) =
     INTEGRAL_RESET_ITER * Suc 0 \<and>
   adc_sweep (sweep_of [0, 0, 0, 0, 0, 900]) \<and>
   (\<exists>st1 p st2 st'.
      run_moves (replicate (INTEGRAL_RESET_ITER * Suc 0) (sweep_of [900, 0, 0, 0, 0, 0]))
        initial_robot = Inr st1 \<and>
      reset_integral st1 = INTEGRAL_RESET_ITER \<and>
      read_qrt_line (sweep_of [0, 0, 0, 0, 0, 900]) st1 = Inr (p, st2) \<and>
      handle_move (sweep_of [0, 0, 0, 0, 0, 900]) st1 = Inr st' \<and>
      integral st' = scast (position_error p) \<and> reset_integral st' = 1)"
proof -
  have a: "adc_sweep (sweep_of [900, 0, 0, 0, 0, 0])"
    by (simp add: adc_sweep_def adc_reading_def read_line_input_unfold sweep_of_def)
  have v: "list_all adc_sweep (replicate (INTEGRAL_RESET_ITER * Suc 0) (sweep_of [900, 0, 0, 0, 0, 0]))"
    using a by (simp add: list_all_iff)
  have l: "length (replicate (INTEGRAL_RESET_ITER * Suc 0) (sweep_of [900, 0, 0, 0, 0, 0])) =
     INTEGRAL_RESET_ITER * Suc 0"
    by simp
  have b: "adc_sweep (sweep_of [0, 0, 0, 0, 0, 900])"
    by (simp add: adc_sweep_def adc_reading_def read_line_input_unfold sweep_of_def)
  show ?thesis
    using v l b integral_restarts_after_reset [OF v l b] by blast
qed


end
